theory Spec2Isabelle
  imports Complex_Main "HOL-Library.Sublist"
begin

section \<open>URL parsing as the crawler uses it\<close>

text \<open>
  \<^verbatim>\<open>crawler.py\<close> reads a URL only through \<^verbatim>\<open>urllib.parse.urlparse\<close>. The
  functions below follow the standard library's \<^verbatim>\<open>urlsplit\<close>, \<^verbatim>\<open>_splitnetloc\<close>,
  \<^verbatim>\<open>_splitparams\<close> and \<^verbatim>\<open>urlparse\<close> line by line on strings. A \<^verbatim>\<open>ValueError\<close>
  of the library is the value \<open>None\<close>. The library's two deeper checks of a network
  location (the address between brackets, and NFKC normalisation of a location that is
  not ASCII) are not computed here: they are the parameter \<open>chk\<close>, consulted exactly
  where the library runs them.
\<close>

definition ascii_letters :: string where
  "ascii_letters = ''abcdefghijklmnopqrstuvwxyzABCDEFGHIJKLMNOPQRSTUVWXYZ''"

definition scheme_chars :: string where
  "scheme_chars = ''abcdefghijklmnopqrstuvwxyzABCDEFGHIJKLMNOPQRSTUVWXYZ0123456789+-.''"

definition uses_params :: "string list" where
  "uses_params = ['''', ''ftp'', ''hdl'', ''prospero'', ''http'', ''imap'', ''https'',
     ''shttp'', ''rtsp'', ''rtsps'', ''rtspu'', ''sip'', ''sips'', ''mms'', ''sftp'', ''tel'']"

definition lower_char :: "char \<Rightarrow> char" where
  "lower_char c =
     (case map_of (zip ''ABCDEFGHIJKLMNOPQRSTUVWXYZ'' ''abcdefghijklmnopqrstuvwxyz'') c of
        Some d \<Rightarrow> d | None \<Rightarrow> c)"

definition lower :: "string \<Rightarrow> string" where
  "lower s = map lower_char s"

text \<open>\<^verbatim>\<open>url.lstrip(_WHATWG_C0_CONTROL_OR_SPACE)\<close>: the characters 0 to 32.\<close>

definition c0_or_space :: "char \<Rightarrow> bool" where
  "c0_or_space c = ((of_char c :: nat) \<le> 32)"

text \<open>\<^verbatim>\<open>_UNSAFE_URL_BYTES_TO_REMOVE\<close>: tab, carriage return and line feed.\<close>

definition unsafe_byte :: "char \<Rightarrow> bool" where
  "unsafe_byte c = (c = CHR 0x09 \<or> c = CHR 0x0D \<or> c = CHR 0x0A)"

definition is_delim :: "char \<Rightarrow> bool" where
  "is_delim c = (c = CHR ''/'' \<or> c = CHR ''?'' \<or> c = CHR ''#'')"

record parse_result =
  scheme :: string
  netloc :: string
  path :: string
  params :: string
  query :: string
  fragment :: string

text \<open>
  The scheme: the text before the first colon, when the colon is not the first character,
  the first character is an ASCII letter and every character before the colon is a scheme
  character; it is lowered. Otherwise the scheme is empty and nothing is consumed.
\<close>

definition split_scheme :: "string \<Rightarrow> string \<times> string" where
  "split_scheme url =
     (let pre = takeWhile (\<lambda>c. c \<noteq> CHR '':'') url in
      if CHR '':'' \<in> set url \<and> pre \<noteq> [] \<and> hd pre \<in> set ascii_letters
         \<and> list_all (\<lambda>c. c \<in> set scheme_chars) pre
      then (lower pre, drop (Suc (length pre)) url)
      else ('''', url))"

text \<open>
  The checks of a network location: one bracket without the other raises; with both
  brackets, or with a character that is not ASCII, the library's further checks decide.
\<close>

definition netloc_accepted :: "(string \<Rightarrow> bool) \<Rightarrow> string \<Rightarrow> bool" where
  "netloc_accepted chk n =
     (let lb = CHR ''['' \<in> set n; rb = CHR '']'' \<in> set n in
      if (lb \<and> \<not> rb) \<or> (rb \<and> \<not> lb) then False
      else if (lb \<and> rb) \<or> (\<exists>c \<in> set n. (of_char c :: nat) \<ge> 128) then chk n
      else True)"

text \<open>\<^verbatim>\<open>_splitparams\<close>, keeping the path: cut at the first semicolon of the last segment.\<close>

definition splitparams :: "string \<Rightarrow> string \<times> string" where
  "splitparams url =
     (if CHR ''/'' \<in> set url then
        (let seg = rev (takeWhile (\<lambda>c. c \<noteq> CHR ''/'') (rev url));
             front = take (length url - length seg) url in
         if CHR '';'' \<in> set seg
         then (front @ takeWhile (\<lambda>c. c \<noteq> CHR '';'') seg,
               drop 1 (dropWhile (\<lambda>c. c \<noteq> CHR '';'') seg))
         else (url, ''''))
      else (takeWhile (\<lambda>c. c \<noteq> CHR '';'') url,
            drop 1 (dropWhile (\<lambda>c. c \<noteq> CHR '';'') url)))"

text \<open>
  \<^verbatim>\<open>urlsplit\<close>: scheme, network location, the rest up to the query, query, fragment.
\<close>

definition urlsplit ::
  "(string \<Rightarrow> bool) \<Rightarrow> string \<Rightarrow> (string \<times> string \<times> string \<times> string \<times> string) option" where
  "urlsplit chk url0 =
     (let url1 = filter (\<lambda>c. \<not> unsafe_byte c) (dropWhile c0_or_space url0);
          (sch, url2) = split_scheme url1;
          has_netloc = (take 2 url2 = ''//'');
          nl = (if has_netloc then takeWhile (\<lambda>c. \<not> is_delim c) (drop 2 url2) else []);
          url3 = (if has_netloc then dropWhile (\<lambda>c. \<not> is_delim c) (drop 2 url2) else url2);
          frag = drop 1 (dropWhile (\<lambda>c. c \<noteq> CHR ''#'') url3);
          url4 = takeWhile (\<lambda>c. c \<noteq> CHR ''#'') url3;
          qry = drop 1 (dropWhile (\<lambda>c. c \<noteq> CHR ''?'') url4);
          url5 = takeWhile (\<lambda>c. c \<noteq> CHR ''?'') url4
      in if has_netloc \<and> \<not> netloc_accepted chk nl then None
         else Some (sch, nl, url5, qry, frag))"

text \<open>\<^verbatim>\<open>urlparse\<close>: \<^verbatim>\<open>urlsplit\<close>, then the parameters of the last path segment.\<close>

definition urlparse :: "(string \<Rightarrow> bool) \<Rightarrow> string \<Rightarrow> parse_result option" where
  "urlparse chk url =
     (case urlsplit chk url of
        None \<Rightarrow> None
      | Some (sch, nl, url5, qry, frag) \<Rightarrow>
          (let (pth, prm) = (if sch \<in> set uses_params \<and> CHR '';'' \<in> set url5
                             then splitparams url5 else (url5, []))
           in Some \<lparr>scheme = sch, netloc = nl, path = pth, params = prm,
                     query = qry, fragment = frag\<rparr>))"

section \<open>The crawler (crawler.py)\<close>

text \<open>
  What the crawler cannot compute by itself is a parameter:
  \<^item> \<open>http_get n url\<close>: the outcome of the \<open>n\<close>-th call of \<^verbatim>\<open>session.get\<close> followed by
    \<^verbatim>\<open>raise_for_status\<close>, for \<open>url\<close>: \<open>None\<close> for a \<^verbatim>\<open>RequestException\<close> (time-out,
    refused connection, a 4xx or 5xx status), \<open>Some text\<close> for a body. The index lets
    the same address answer differently at different times;
  \<^item> \<open>hrefs html\<close>: the \<^verbatim>\<open>href\<close> values of the anchors BeautifulSoup finds in a body, in
    document order;
  \<^item> \<open>urljoin base href\<close>: the library's \<^verbatim>\<open>urljoin\<close>, \<open>None\<close> when it raises;
  \<^item> \<open>netloc_chk\<close>: the parameter of \<^const>\<open>urlparse\<close>.
\<close>

record env =
  http_get :: "nat \<Rightarrow> string \<Rightarrow> string option"
  hrefs :: "string \<Rightarrow> string list"
  urljoin :: "string \<Rightarrow> string \<Rightarrow> string option"
  netloc_chk :: "string \<Rightarrow> bool"

text \<open>
  The fields of \<^verbatim>\<open>WebCrawler\<close>, the local counter \<^verbatim>\<open>pages_crawled\<close> of \<^verbatim>\<open>crawl\<close>, and
  \<open>requests\<close>: the addresses handed to \<^verbatim>\<open>session.get\<close> so far, oldest first. The last
  one is not a field of the class; it records the effect of \<^verbatim>\<open>get_page_content\<close> on the
  network, so that "fetched" can be stated.
\<close>

record crawler =
  base_url :: string
  domain :: string
  max_pages :: int
  visited_urls :: "string set"
  all_links :: "string set"
  to_visit :: "string list"
  failed_urls :: "string list"
  pages_crawled :: nat
  requests :: "string list"

text \<open>\<^verbatim>\<open>__init__\<close>: raises when \<^verbatim>\<open>urlparse(base_url)\<close> does.\<close>

definition init :: "env \<Rightarrow> string \<Rightarrow> int \<Rightarrow> crawler option" where
  "init E b m =
     (case urlparse (netloc_chk E) b of
        None \<Rightarrow> None
      | Some p \<Rightarrow> Some \<lparr>base_url = b, domain = netloc p, max_pages = m,
                         visited_urls = {}, all_links = {}, to_visit = [b],
                         failed_urls = [], pages_crawled = 0, requests = []\<rparr>)"

definition is_valid_url :: "env \<Rightarrow> string \<Rightarrow> string \<Rightarrow> bool option" where
  "is_valid_url E dmn url =
     (case urlparse (netloc_chk E) url of
        None \<Rightarrow> None
      | Some p \<Rightarrow> Some (netloc p = dmn))"

definition normalize_url :: "(string \<Rightarrow> bool) \<Rightarrow> string \<Rightarrow> string option" where
  "normalize_url chk url =
     (case urlparse chk url of
        None \<Rightarrow> None
      | Some p \<Rightarrow> Some (scheme p @ ''://'' @ netloc p @ path p))"

text \<open>
  \<^verbatim>\<open>get_page_content\<close>: one request; a \<^verbatim>\<open>RequestException\<close> appends the address to
  \<^verbatim>\<open>failed_urls\<close> and returns \<^verbatim>\<open>None\<close>.
\<close>

definition get_page_content :: "env \<Rightarrow> string \<Rightarrow> crawler \<Rightarrow> string option \<times> crawler" where
  "get_page_content E url s =
     (let s1 = s\<lparr>requests := requests s @ [url]\<rparr> in
      case http_get E (length (requests s)) url of
        Some text \<Rightarrow> (Some text, s1)
      | None \<Rightarrow> (None, s1\<lparr>failed_urls := failed_urls s1 @ [url]\<rparr>))"

text \<open>
  \<^verbatim>\<open>extract_links\<close>: the loop over the anchors. The source collects the links in a set;
  here the set is the list of the accepted links without repetitions, in the order of
  their first anchor. An exception of \<^verbatim>\<open>urljoin\<close> or \<^verbatim>\<open>urlparse\<close> leaves the loop.
\<close>

fun collect_links :: "env \<Rightarrow> string \<Rightarrow> string \<Rightarrow> string list \<Rightarrow> string list \<Rightarrow> string list option" where
  "collect_links E dmn base [] links = Some links"
| "collect_links E dmn base (href # others) links =
     (case urljoin E base href of
        None \<Rightarrow> None
      | Some full_url \<Rightarrow>
          (case normalize_url (netloc_chk E) full_url of
             None \<Rightarrow> None
           | Some normalized_url \<Rightarrow>
               (case is_valid_url E dmn normalized_url of
                  None \<Rightarrow> None
                | Some ok \<Rightarrow>
                    collect_links E dmn base others
                      (if ok \<and> normalized_url \<notin> set links then links @ [normalized_url]
                       else links))))"

definition extract_links :: "env \<Rightarrow> string \<Rightarrow> string \<Rightarrow> string \<Rightarrow> string list option" where
  "extract_links E dmn html_content base = collect_links E dmn base (hrefs E html_content) []"

text \<open>
  One turn of the \<^verbatim>\<open>while\<close> loop of \<^verbatim>\<open>crawl\<close>, for a queue that is not empty. \<open>None\<close>:
  an exception left \<^verbatim>\<open>extract_links\<close>, and so \<^verbatim>\<open>crawl\<close>.
\<close>

definition crawl_body :: "env \<Rightarrow> crawler \<Rightarrow> crawler option" where
  "crawl_body E s =
     (case to_visit s of
        [] \<Rightarrow> None
      | current_url # rest \<Rightarrow>
          (let s1 = s\<lparr>to_visit := rest\<rparr> in
           if current_url \<in> visited_urls s1 then Some s1
           else
             (case get_page_content E current_url s1 of
                (None, s2) \<Rightarrow> Some s2
              | (Some html_content, s2) \<Rightarrow>
                  if html_content = [] then Some s2
                  else
                    (let s3 = s2\<lparr>visited_urls := insert current_url (visited_urls s2),
                                  pages_crawled := Suc (pages_crawled s2)\<rparr> in
                     case extract_links E (domain s3) html_content current_url of
                       None \<Rightarrow> None
                     | Some page_links \<Rightarrow>
                         Some (s3\<lparr>all_links := all_links s3 \<union> set page_links,
                                  to_visit := to_visit s3 @
                                    filter (\<lambda>link. link \<notin> visited_urls s3) page_links\<rparr>)))))"

definition running :: "crawler \<Rightarrow> bool" where
  "running s = (to_visit s \<noteq> [] \<and> int (pages_crawled s) < max_pages s)"

lemma crawl_body_measure:
  assumes "crawl_body E s = Some s'"
  shows "max_pages s' = max_pages s"
    and "pages_crawled s' = pages_crawled s \<and> length (to_visit s') < length (to_visit s)
         \<or> pages_crawled s' = Suc (pages_crawled s)"
  using assms
  by (auto simp: crawl_body_def get_page_content_def Let_def
      split: list.splits if_splits option.splits prod.splits)

function crawl :: "env \<Rightarrow> crawler \<Rightarrow> crawler option" where
  "crawl E s =
     (if running s then
        (case crawl_body E s of None \<Rightarrow> None | Some s' \<Rightarrow> crawl E s')
      else Some s)"
  by pat_completeness auto
termination
proof (relation "measures [\<lambda>(E, s). nat (max_pages s - int (pages_crawled s)),
                           \<lambda>(E, s). length (to_visit s)]")
  show "wf (measures [\<lambda>(E, s). nat (max_pages s - int (pages_crawled s)),
                      \<lambda>(E, s). length (to_visit s)])"
    by simp
next
  fix E s s'
  assume r: "running s" and b: "crawl_body E s = Some s'"
  from crawl_body_measure [OF b] r
  show "((E, s'), (E, s)) \<in> measures [\<lambda>(E, s). nat (max_pages s - int (pages_crawled s)),
                                        \<lambda>(E, s). length (to_visit s)]"
    by (auto simp: running_def)
qed

declare crawl.simps [simp del]

text \<open>
  The state after \<open>n\<close> turns of the loop, or the state in which the loop ended when it
  ends earlier. It names the intermediate states of \<^const>\<open>crawl\<close>.
\<close>

fun crawl_upto :: "env \<Rightarrow> nat \<Rightarrow> crawler \<Rightarrow> crawler option" where
  "crawl_upto E 0 s = Some s"
| "crawl_upto E (Suc n) s =
     (if running s then
        (case crawl_body E s of None \<Rightarrow> None | Some s' \<Rightarrow> crawl_upto E n s')
      else Some s)"




subsection \<open>A small site\<close>

text \<open>
  The home page links to a page that cannot be fetched, to another site and to the
  "about" page; the "about" page links to the page that cannot be fetched.
\<close>

definition demo_web :: env where
  "demo_web = \<lparr>
     http_get = (\<lambda>n u. if u = ''https://example.org/'' then Some ''home''
                       else if u = ''https://example.org/about'' then Some ''about''
                       else None),
     hrefs = (\<lambda>h. if h = ''home'' then [''https://example.org/f'', ''https://external.com/x'',
                                          ''https://example.org/about#team'']
                    else if h = ''about'' then [''https://example.org/f?retry=1''] else []),
     urljoin = (\<lambda>b h. Some h),
     netloc_chk = (\<lambda>n. True)\<rparr>"

definition demo_start :: "int \<Rightarrow> crawler" where
  "demo_start m = \<lparr>base_url = ''https://example.org/'', domain = ''example.org'',
     max_pages = m, visited_urls = {}, all_links = {}, to_visit = [''https://example.org/''],
     failed_urls = [], pages_crawled = 0, requests = []\<rparr>"

text \<open>Every address the crawler holds passes \<^verbatim>\<open>is_valid_url\<close>.\<close>

definition in_domain :: "env \<Rightarrow> crawler \<Rightarrow> bool" where
  "in_domain E s =
     (\<forall>u \<in> set (to_visit s) \<union> all_links s \<union> visited_urls s \<union> set (requests s)
            \<union> set (failed_urls s).
        is_valid_url E (domain s) u = Some True)"

text \<open>The states of the run on the small site with a budget of ten pages.\<close>

definition demo_s1 :: crawler where
  "demo_s1 = (demo_start 10)\<lparr>visited_urls := {''https://example.org/''},
     all_links := {''https://example.org/f'', ''https://example.org/about''},
     to_visit := [''https://example.org/f'', ''https://example.org/about''],
     pages_crawled := 1, requests := [''https://example.org/'']\<rparr>"

definition demo_s2 :: crawler where
  "demo_s2 = demo_s1\<lparr>to_visit := [''https://example.org/about''],
     failed_urls := [''https://example.org/f''],
     requests := [''https://example.org/'', ''https://example.org/f'']\<rparr>"

definition demo_s3 :: crawler where
  "demo_s3 = demo_s2\<lparr>visited_urls := {''https://example.org/'', ''https://example.org/about''},
     to_visit := [''https://example.org/f''], pages_crawled := 2,
     requests := [''https://example.org/'', ''https://example.org/f'',
                  ''https://example.org/about'']\<rparr>"

definition demo_s4 :: crawler where
  "demo_s4 = demo_s3\<lparr>to_visit := [],
     failed_urls := [''https://example.org/f'', ''https://example.org/f''],
     requests := [''https://example.org/'', ''https://example.org/f'',
                  ''https://example.org/about'', ''https://example.org/f'']\<rparr>"

text \<open>
  A second site: the home page links to the pages b and c, which link to each other.
\<close>

definition diamond_web :: env where
  "diamond_web = \<lparr>
     http_get = (\<lambda>n u. if u = ''https://example.org/'' then Some ''home''
                       else if u = ''https://example.org/b'' then Some ''page b''
                       else if u = ''https://example.org/c'' then Some ''page c''
                       else None),
     hrefs = (\<lambda>h. if h = ''home'' then [''https://example.org/b'', ''https://example.org/c'']
                    else if h = ''page b'' then [''https://example.org/c'']
                    else if h = ''page c'' then [''https://example.org/b''] else []),
     urljoin = (\<lambda>b h. Some h),
     netloc_chk = (\<lambda>n. True)\<rparr>"

text \<open>Its state after three turns.\<close>

definition diamond_s3 :: crawler where
  "diamond_s3 = (demo_start 10)\<lparr>
     visited_urls := {''https://example.org/'', ''https://example.org/b'', ''https://example.org/c''},
     all_links := {''https://example.org/b'', ''https://example.org/c''},
     to_visit := [''https://example.org/c''], pages_crawled := 3,
     requests := [''https://example.org/'', ''https://example.org/b'', ''https://example.org/c'']\<rparr>"

section \<open>Properties of the crawl loop\<close>

lemma crawl_upto_invariant:
  assumes "P s"
    and step: "\<And>s s'. P s \<Longrightarrow> running s \<Longrightarrow> crawl_body E s = Some s' \<Longrightarrow> P s'"
    and "crawl_upto E n s = Some r"
  shows "P r"
  using assms(1,3)
proof (induction n arbitrary: s)
  case 0
  then show ?case by simp
next
  case (Suc n)
  show ?case
  proof (cases "running s")
    case False
    with Suc.prems show ?thesis by simp
  next
    case True
    with Suc.prems obtain s' where b: "crawl_body E s = Some s'"
      and u: "crawl_upto E n s' = Some r"
      by (auto split: option.splits)
    from step [OF Suc.prems(1) True b] u show ?thesis by (rule Suc.IH)
  qed
qed






lemma crawl_trace:
  "crawl E s = Some r \<Longrightarrow>
   \<exists>n. crawl_upto E n s = Some r \<and> \<not> running r \<and>
       (\<forall>k<n. \<exists>sk. crawl_upto E k s = Some sk \<and> running sk)"
proof (induction E s rule: crawl.induct)
  case (1 E s)
  show ?case
  proof (cases "running s")
    case False
    with "1.prems" have "r = s" by (simp add: crawl.simps [of E s])
    with False have "crawl_upto E 0 s = Some r \<and> \<not> running r \<and>
       (\<forall>k<0. \<exists>sk. crawl_upto E k s = Some sk \<and> running sk)" by simp
    then show ?thesis by blast
  next
    case True
    with "1.prems" obtain s' where b: "crawl_body E s = Some s'" and c: "crawl E s' = Some r"
      by (auto simp: crawl.simps [of E s] split: option.splits)
    from "1.IH" [OF True b c] obtain n where
      n: "crawl_upto E n s' = Some r" "\<not> running r"
         "\<forall>k<n. \<exists>sk. crawl_upto E k s' = Some sk \<and> running sk" by blast
    have "\<exists>sk. crawl_upto E k s = Some sk \<and> running sk" if "k < Suc n" for k
    proof (cases k)
      case 0
      with True show ?thesis by simp
    next
      case (Suc j)
      with that n(3) True b show ?thesis by simp
    qed
    with n(1,2) True b have "crawl_upto E (Suc n) s = Some r \<and> \<not> running r \<and>
       (\<forall>k<Suc n. \<exists>sk. crawl_upto E k s = Some sk \<and> running sk)" by simp
    then show ?thesis by blast
  qed
qed


lemma demo_init: "init demo_web ''https://example.org/'' m = Some (demo_start m)"
  unfolding demo_start_def by code_simp



lemma collect_links_valid:
  "collect_links E d base hs links = Some r \<Longrightarrow>
   \<forall>l \<in> set links. is_valid_url E d l = Some True \<Longrightarrow>
   \<forall>l \<in> set r. is_valid_url E d l = Some True"
proof (induction hs arbitrary: links)
  case Nil
  then show ?case by simp
next
  case (Cons h hs)
  from Cons.prems(1) obtain full nu ok where
    j: "urljoin E base h = Some full"
    and n: "normalize_url (netloc_chk E) full = Some nu"
    and v: "is_valid_url E d nu = Some ok"
    and c: "collect_links E d base hs
              (if ok \<and> nu \<notin> set links then links @ [nu] else links) = Some r"
    by (auto split: option.splits)
  have "\<forall>l \<in> set (if ok \<and> nu \<notin> set links then links @ [nu] else links).
          is_valid_url E d l = Some True"
    using Cons.prems(2) v by auto
  with c show ?case by (rule Cons.IH)
qed


lemma extract_links_valid:
  "extract_links E d h base = Some r \<Longrightarrow> l \<in> set r \<Longrightarrow> is_valid_url E d l = Some True"
  unfolding extract_links_def using collect_links_valid [of E d base "hrefs E h" "[]" r] by simp


lemma domain_body: "crawl_body E s = Some s' \<Longrightarrow> domain s' = domain s"
  by (auto simp: crawl_body_def get_page_content_def Let_def
      split: list.splits if_splits option.splits prod.splits)

lemma in_domain_body:
  assumes i: "in_domain E s" and b: "crawl_body E s = Some s'"
  shows "in_domain E s'"
proof -
  have d: "domain s' = domain s" using b by (rule domain_body)
  show ?thesis
    using i b extract_links_valid [of E "domain s"] unfolding in_domain_def d
    by (auto simp: crawl_body_def get_page_content_def Let_def
        split: list.splits if_splits option.splits prod.splits)
qed

lemma in_domain_init: "init E b m = Some s0 \<Longrightarrow> in_domain E s0"
  by (auto simp: init_def in_domain_def is_valid_url_def split: option.splits)

lemma domain_upto: "crawl_upto E n s = Some r \<Longrightarrow> domain r = domain s"
proof -
  assume u: "crawl_upto E n s = Some r"
  have "domain s = domain s" by simp
  then show ?thesis
    using _ u by (rule crawl_upto_invariant [where P = "\<lambda>x. domain x = domain s"])
      (simp add: domain_body)
qed






lemma grows_body:
  assumes "crawl_body E s = Some s'"
  shows "visited_urls s \<subseteq> visited_urls s' \<and> all_links s \<subseteq> all_links s'"
  using assms
  by (auto simp: crawl_body_def get_page_content_def Let_def
      split: list.splits if_splits option.splits prod.splits)

lemma grows_upto:
  assumes r: "crawl_upto E n s = Some s'"
  shows "visited_urls s \<subseteq> visited_urls s' \<and> all_links s \<subseteq> all_links s'"
  using _ _ r
proof (rule crawl_upto_invariant)
  show "visited_urls s \<subseteq> visited_urls s \<and> all_links s \<subseteq> all_links s" by simp
next
  fix x x'
  assume "visited_urls s \<subseteq> visited_urls x \<and> all_links s \<subseteq> all_links x"
    and "crawl_body E x = Some x'"
  then show "visited_urls s \<subseteq> visited_urls x' \<and> all_links s \<subseteq> all_links x'"
    using grows_body [of E x x'] by blast
qed

lemma skip_visited_body:
  "to_visit s = u # q \<Longrightarrow> u \<in> visited_urls s \<Longrightarrow> crawl_body E s = Some (s\<lparr>to_visit := q\<rparr>)"
  by (simp add: crawl_body_def)

lemma failed_fetch_body:
  assumes "to_visit s = u # q" and "u \<notin> visited_urls s"
    and "http_get E (length (requests s)) u = None"
  shows "crawl_body E s = Some (s\<lparr>to_visit := q, requests := requests s @ [u],
                                  failed_urls := failed_urls s @ [u]\<rparr>)"
  using assms by (simp add: crawl_body_def get_page_content_def)


lemma demo_run:
  "crawl_upto demo_web 1 (demo_start 10) = Some demo_s1"
  "crawl_upto demo_web 2 (demo_start 10) = Some demo_s2"
  "crawl_upto demo_web 3 (demo_start 10) = Some demo_s3"
  "crawl_upto demo_web 4 (demo_start 10) = Some demo_s4"
  "crawl demo_web (demo_start 10) = Some demo_s4"
  by code_simp+


lemma diamond_run: "crawl_upto diamond_web 3 (demo_start 10) = Some diamond_s3"
  by code_simp


subsection \<open>Termination and the page budget\<close>



subsection \<open>The domain check\<close>

text \<open>
  C6. The target host is \<^verbatim>\<open>self.domain\<close>, the network location of \<^verbatim>\<open>base_url\<close>. An
  address that \<^verbatim>\<open>is_valid_url\<close> does not accept (its network location differs from the
  target host, or it does not parse) is, in every state of a run from the initial state
  and in the state \<^verbatim>\<open>crawl\<close> returns, absent from the queue, from \<^verbatim>\<open>all_links\<close>, from
  \<^verbatim>\<open>visited_urls\<close> and from the addresses requested.
\<close>

theorem out_of_domain_never_enqueued:
  assumes "init E b m = Some s0"
    and "is_valid_url E (domain s0) u \<noteq> Some True"
  shows "(\<forall>n s. crawl_upto E n s0 = Some s \<longrightarrow>
            u \<notin> set (to_visit s) \<and> u \<notin> all_links s \<and> u \<notin> visited_urls s
            \<and> u \<notin> set (requests s))
       \<and> (\<forall>r. crawl E s0 = Some r \<longrightarrow>
            u \<notin> set (to_visit r) \<and> u \<notin> all_links r \<and> u \<notin> visited_urls r
            \<and> u \<notin> set (requests r))"
proof -
  have run: "u \<notin> set (to_visit s) \<and> u \<notin> all_links s \<and> u \<notin> visited_urls s
         \<and> u \<notin> set (requests s)" if "crawl_upto E n s0 = Some s" for n s
  proof -
    have "in_domain E s"
      using in_domain_init [OF assms(1)] in_domain_body that
      by (rule crawl_upto_invariant)
    moreover have "domain s = domain s0" using that by (rule domain_upto)
    ultimately show ?thesis using assms(2) by (auto simp: in_domain_def)
  qed
  have "u \<notin> set (to_visit r) \<and> u \<notin> all_links r \<and> u \<notin> visited_urls r
         \<and> u \<notin> set (requests r)" if "crawl E s0 = Some r" for r
  proof -
    from crawl_trace [OF that] obtain n where "crawl_upto E n s0 = Some r" by blast
    then show ?thesis by (rule run)
  qed
  with run show ?thesis by blast
qed

theorem out_of_domain_never_enqueued_witness:
  "init demo_web ''https://example.org/'' 10 = Some (demo_start 10)
   \<and> is_valid_url demo_web (domain (demo_start 10)) ''https://external.com/x'' = Some False
   \<and> crawl demo_web (demo_start 10) = Some demo_s4
   \<and> ''https://external.com/x'' \<in> set (hrefs demo_web ''home'')
   \<and> ''https://external.com/x'' \<notin> set (to_visit demo_s4)
   \<and> ''https://external.com/x'' \<notin> all_links demo_s4
   \<and> ''https://external.com/x'' \<notin> visited_urls demo_s4
   \<and> ''https://external.com/x'' \<notin> set (requests demo_s4)"
proof -
  have v: "is_valid_url demo_web (domain (demo_start 10)) ''https://external.com/x'' = Some False"
    by code_simp
  have h: "''https://external.com/x'' \<in> set (hrefs demo_web ''home'')"
    by (simp add: demo_web_def)
  have "is_valid_url demo_web (domain (demo_start 10)) ''https://external.com/x'' \<noteq> Some True"
    using v by simp
  from out_of_domain_never_enqueued [OF demo_init this] demo_run(5)
  have "''https://external.com/x'' \<notin> set (to_visit demo_s4)
   \<and> ''https://external.com/x'' \<notin> all_links demo_s4
   \<and> ''https://external.com/x'' \<notin> visited_urls demo_s4
   \<and> ''https://external.com/x'' \<notin> set (requests demo_s4)" by blast
  with v h demo_init demo_run(5) show ?thesis by blast
qed

subsection \<open>Discovery, the queue and the visited set\<close>




text \<open>
  C4, as the claim states it, fails on a site where two pages link to each other and
  the home page links to both: after three turns \<^verbatim>\<open>https://example.org/c\<close> is visited
  and still queued.
\<close>

theorem visited_url_still_queued:
  "map_option to_visit (crawl_upto diamond_web 3 (demo_start 10)) = Some [''https://example.org/c'']
   \<and> map_option visited_urls (crawl_upto diamond_web 3 (demo_start 10))
       = Some {''https://example.org/'', ''https://example.org/b'', ''https://example.org/c''}"
  by code_simp

text \<open>
  C4, amended. Along a run \<^verbatim>\<open>visited_urls\<close> only grows and \<^verbatim>\<open>all_links\<close> only grows
  (so an address enters each of them at most once). The queue may hold an address that
  is already visited; when such an address reaches the head of the queue it is dropped:
  the turn changes nothing but the queue.
\<close>

theorem visited_and_discovered_only_grow:
  assumes "crawl_upto E n s = Some s'"
  shows "visited_urls s \<subseteq> visited_urls s' \<and> all_links s \<subseteq> all_links s'
       \<and> (\<forall>u q. to_visit s' = u # q \<and> u \<in> visited_urls s'
            \<longrightarrow> crawl_body E s' = Some (s'\<lparr>to_visit := q\<rparr>))"
  using grows_upto [OF assms] skip_visited_body [of s' _ _ E] by blast

theorem visited_and_discovered_only_grow_witness:
  "crawl_upto diamond_web 3 (demo_start 10) = Some diamond_s3
   \<and> to_visit diamond_s3 = [''https://example.org/c'']
   \<and> ''https://example.org/c'' \<in> visited_urls diamond_s3
   \<and> visited_urls (demo_start 10) \<subseteq> visited_urls diamond_s3
   \<and> all_links (demo_start 10) \<subseteq> all_links diamond_s3
   \<and> crawl_body diamond_web diamond_s3 = Some (diamond_s3\<lparr>to_visit := []\<rparr>)"
proof -
  have a: "to_visit diamond_s3 = [''https://example.org/c'']"
    and b: "''https://example.org/c'' \<in> visited_urls diamond_s3"
    by (simp_all add: diamond_s3_def)
  from visited_and_discovered_only_grow [OF diamond_run] a b
  show ?thesis using diamond_run by blast
qed

subsection \<open>A fetch that fails\<close>

text \<open>
  C5, as the claim states it, fails on the small site: \<^verbatim>\<open>https://example.org/f\<close>
  cannot be fetched, is never in \<^verbatim>\<open>visited_urls\<close>, and is in \<^verbatim>\<open>failed_urls\<close> twice at
  the end of the run, once for each of its two requests.
\<close>

theorem failed_url_not_visited_and_fetched_again:
  "map_option failed_urls (crawl demo_web (demo_start 10))
     = Some [''https://example.org/f'', ''https://example.org/f'']
   \<and> map_option visited_urls (crawl demo_web (demo_start 10))
     = Some {''https://example.org/'', ''https://example.org/about''}"
  by code_simp

text \<open>
  C5, amended. When the request of the address at the head of the queue fails, the
  address is appended to \<^verbatim>\<open>failed_urls\<close>; \<^verbatim>\<open>visited_urls\<close>, \<^verbatim>\<open>all_links\<close> and the
  counter stay as they were, and the crawl goes on with the rest of the queue.
\<close>

theorem failed_fetch_recorded_and_crawl_continues:
  assumes "running s" and "to_visit s = u # q" and "u \<notin> visited_urls s"
    and "http_get E (length (requests s)) u = None"
  shows "\<exists>s'. crawl_body E s = Some s' \<and> crawl E s = crawl E s'
           \<and> to_visit s' = q \<and> failed_urls s' = failed_urls s @ [u]
           \<and> requests s' = requests s @ [u] \<and> visited_urls s' = visited_urls s
           \<and> all_links s' = all_links s \<and> pages_crawled s' = pages_crawled s"
proof -
  let ?s' = "s\<lparr>to_visit := q, requests := requests s @ [u],
                failed_urls := failed_urls s @ [u]\<rparr>"
  have b: "crawl_body E s = Some ?s'" using assms(2-4) by (rule failed_fetch_body)
  with assms(1) have "crawl E s = crawl E ?s'" by (simp add: crawl.simps [of E s])
  with b show ?thesis by simp
qed

theorem failed_fetch_recorded_and_crawl_continues_witness:
  "running demo_s1 \<and> to_visit demo_s1 = [''https://example.org/f'', ''https://example.org/about'']
   \<and> ''https://example.org/f'' \<notin> visited_urls demo_s1
   \<and> http_get demo_web (length (requests demo_s1)) ''https://example.org/f'' = None
   \<and> (\<exists>s'. crawl_body demo_web demo_s1 = Some s' \<and> crawl demo_web demo_s1 = crawl demo_web s'
           \<and> to_visit s' = [''https://example.org/about'']
           \<and> failed_urls s' = failed_urls demo_s1 @ [''https://example.org/f'']
           \<and> requests s' = requests demo_s1 @ [''https://example.org/f'']
           \<and> visited_urls s' = visited_urls demo_s1
           \<and> all_links s' = all_links demo_s1 \<and> pages_crawled s' = pages_crawled demo_s1)"
proof -
  have a: "running demo_s1"
    and b: "to_visit demo_s1 = [''https://example.org/f'', ''https://example.org/about'']"
    and c: "''https://example.org/f'' \<notin> visited_urls demo_s1"
    and d: "http_get demo_web (length (requests demo_s1)) ''https://example.org/f'' = None"
    by (simp_all add: running_def demo_s1_def demo_start_def demo_web_def)
  from failed_fetch_recorded_and_crawl_continues [OF a b c d] a b c d
  show ?thesis by blast
qed

end
